theory Spec2Isabelle
  imports Complex_Main
begin

section \<open>Adaptive micro-learning: the recommendation engine\<close>

text \<open>
  A shallow embedding of \<^verbatim>\<open>adaptive_microlearning_app.py\<close>: the unit converter, the
  segment flattener, the streak updater and \<^verbatim>\<open>recommend_segments\<close> (completion
  exclusion, lecture scoping, the soft-order gate, the budget window and the subset-sum
  selection).

  Minutes and the fatigue score are Python floats, that is IEEE 754 binary64 numbers. A
  float is modelled as the real number it denotes, and every arithmetic operation of the
  source on floats as the exact operation followed by rounding to the nearest binary64
  number, ties to even (\<open>double\<close>). The exponent range is not bounded: overflow
  to infinity and subnormal numbers are not modelled, so the model is the program for
  magnitudes between \<open>2 powi - 1022\<close> and \<open>2 powi 1024\<close>. Python integers that the
  code keeps non-negative (unit counts, capacities, list indices) are \<open>nat\<close>; values
  that can be \<open>-1\<close> or \<open>-2\<close> (the table entries, \<open>best\<close>) are \<open>int\<close>.
\<close>

subsection \<open>Double-precision arithmetic\<close>

text \<open>Python's \<^verbatim>\<open>round(x)\<close> on a float: to the nearest integer, ties to the even one.\<close>

definition py_round :: "real \<Rightarrow> int" where
  "py_round x =
     (let f = \<lfloor>x\<rfloor>; d = x - of_int f
      in if d < 1 / 2 then f
         else if 1 / 2 < d then f + 1
         else if even f then f else f + 1)"

text \<open>Python's \<^verbatim>\<open>int(x)\<close> on a float: truncation towards zero.\<close>

definition py_int :: "real \<Rightarrow> int" where
  "py_int x = (if 0 \<le> x then \<lfloor>x\<rfloor> else \<lceil>x\<rceil>)"

text \<open>
  The binary exponent of a positive real \<open>x\<close>: the integer \<open>e\<close> with
  \<open>2 powi e \<le> x < 2 powi (e + 1)\<close>, found by doubling or halving \<open>x\<close> until it lies
  between 1 and 2.
\<close>

function binade :: "real \<Rightarrow> int" where
  "binade x = (if x \<le> 0 then 0
               else if x < 1 then binade (2 * x) - 1
               else if 2 \<le> x then binade (x / 2) + 1
               else 0)"
  by pat_completeness auto
termination
proof (relation "measure (\<lambda>x. nat \<bar>\<lfloor>log 2 x\<rfloor>\<bar>)")
  show "wf (measure (\<lambda>x. nat \<bar>\<lfloor>log 2 x\<rfloor>\<bar>))" by simp
next
  fix x :: real
  assume "\<not> x \<le> 0" and "x < 1"
  then have x: "0 < x" "x < 1" by simp_all
  have "log 2 (2 * x) = 1 + log 2 x" using x by (simp add: log_mult)
  then have f: "\<lfloor>log 2 (2 * x)\<rfloor> = 1 + \<lfloor>log 2 x\<rfloor>" by simp
  have "log 2 x < 0" using x by simp
  then have "\<lfloor>log 2 x\<rfloor> < 0" by simp
  then show "(2 * x, x) \<in> measure (\<lambda>x. nat \<bar>\<lfloor>log 2 x\<rfloor>\<bar>)"
    unfolding in_measure f by linarith
next
  fix x :: real
  assume "\<not> x \<le> 0" and "\<not> x < 1" and "2 \<le> x"
  then have x: "2 \<le> x" by simp
  have "log 2 (x / 2) = log 2 x - 1" using x by (simp add: log_divide)
  then have f: "\<lfloor>log 2 (x / 2)\<rfloor> = \<lfloor>log 2 x\<rfloor> - 1" by simp
  have "1 \<le> log 2 x" using x by simp
  then have "1 \<le> \<lfloor>log 2 x\<rfloor>" by simp
  then show "(x / 2, x) \<in> measure (\<lambda>x. nat \<bar>\<lfloor>log 2 x\<rfloor>\<bar>)"
    unfolding in_measure f by linarith
qed

declare binade.simps [simp del]

text \<open>
  Rounding to binary64: a significand of 53 bits, so a unit in the last place of
  \<open>2 powi (e - 52)\<close> in the binade \<open>e\<close>; the quotient is rounded to the nearest
  integer, ties to the even one.
\<close>

definition double :: "real \<Rightarrow> real" where
  "double x =
     (if x = 0 then 0
      else let u = 2 powi (binade \<bar>x\<bar> - 52) in of_int (py_round (x / u)) * u)"

text \<open>The float operations \<^verbatim>\<open>+\<close>, \<^verbatim>\<open>-\<close>, \<^verbatim>\<open>*\<close> and \<^verbatim>\<open>/\<close>.\<close>

definition fadd :: "real \<Rightarrow> real \<Rightarrow> real" where
  "fadd x y = double (x + y)"

definition fsub :: "real \<Rightarrow> real \<Rightarrow> real" where
  "fsub x y = double (x - y)"

definition fmul :: "real \<Rightarrow> real \<Rightarrow> real" where
  "fmul x y = double (x * y)"

definition fdiv :: "real \<Rightarrow> real \<Rightarrow> real" where
  "fdiv x y = double (x / y)"

text \<open>
  \<^verbatim>\<open>sum(...)\<close> over floats: the additions from left to right, starting from 0, each one
  rounded (CPython from 3.12 on compensates the rounding errors of the partial sums; the
  facts below use the sum only through its sign).
\<close>

definition py_sum :: "real list \<Rightarrow> real" where
  "py_sum xs = foldl fadd 0 xs"

subsection \<open>Unit converter\<close>

definition SCALE :: nat where
  "SCALE = 10"

text \<open>
  \<^verbatim>\<open>max(0, int(round(mins * SCALE)))\<close>: the product is a float product; the result is
  never negative, hence a \<open>nat\<close>.
\<close>

definition to_units :: "real \<Rightarrow> nat" where
  "to_units mins = nat (max 0 (py_round (fmul mins (of_nat SCALE))))"

text \<open>\<^verbatim>\<open>u / SCALE\<close>: the quotient of two integers, correctly rounded.\<close>

definition from_units :: "nat \<Rightarrow> real" where
  "from_units u = fdiv (of_nat u) (of_nat SCALE)"

subsection \<open>Budget window\<close>

text \<open>
  \<^verbatim>\<open>int(u * k)\<close> for a unit count \<open>u\<close> and a float factor \<open>k\<close>: the integer is
  converted to a float, the product is rounded, and the result truncated; it is never
  negative for the factors the code uses.
\<close>

definition derate :: "nat \<Rightarrow> real \<Rightarrow> nat" where
  "derate u k = nat (py_int (fmul (double (of_nat u)) k))"

text \<open>
  Lines 107 to 112 of \<^verbatim>\<open>recommend_segments\<close>: the window from the daily target, then
  the two fatigue thresholds, one \<^verbatim>\<open>if\<close> after the other on the same variables. A
  decimal literal of the source is the double nearest to it.
\<close>

definition budget_window :: "real \<Rightarrow> real \<Rightarrow> nat \<times> nat" where
  "budget_window daily_mins fatigue_score =
     (let low_u = to_units (fmul daily_mins (double (7 / 10)));
          high_u = to_units (fmul daily_mins (double (13 / 10)));
          (low_u, high_u) =
             (if double (6 / 10) < fatigue_score
              then (derate low_u (double (9 / 10)), derate high_u (double (85 / 100)))
              else (low_u, high_u));
          (low_u, high_u) =
             (if double (8 / 10) < fatigue_score
              then (derate low_u (double (9 / 10)), derate high_u (double (7 / 10)))
              else (low_u, high_u))
      in (low_u, high_u))"

text \<open>
  The reading of the specification in which the thresholds are independent: each
  threshold's factors are applied to the original window, the later threshold deciding
  when both hold. This definition follows the specification's words, not the source, and
  is only compared with \<open>budget_window\<close>.
\<close>

definition budget_window_independent :: "real \<Rightarrow> real \<Rightarrow> nat \<times> nat" where
  "budget_window_independent daily_mins fatigue_score =
     (let low_u = to_units (fmul daily_mins (double (7 / 10)));
          high_u = to_units (fmul daily_mins (double (13 / 10)))
      in if double (8 / 10) < fatigue_score
           then (derate low_u (double (9 / 10)), derate high_u (double (7 / 10)))
         else if double (6 / 10) < fatigue_score
           then (derate low_u (double (9 / 10)), derate high_u (double (85 / 100)))
         else (low_u, high_u))"

subsection \<open>Streak updater\<close>

record streak_state =
  current :: int
  last_date :: "string option"
  minutes_today :: real
  last_fatigue :: real

text \<open>
  The part of the stored document that \<^verbatim>\<open>update_streak\<close> reads and writes:
  \<^verbatim>\<open>store['settings'].get('daily_mins', 15.0)\<close> and \<^verbatim>\<open>store.get('streak', ...)\<close>, each
  of which may be absent.
\<close>

record store =
  settings_daily_mins :: "real option"
  streak :: "streak_state option"

definition default_streak :: streak_state where
  "default_streak = \<lparr>current = 0, last_date = None, minutes_today = 0, last_fatigue = 0\<rparr>"

definition daily_target :: "store \<Rightarrow> real" where
  "daily_target st = (case settings_daily_mins st of None \<Rightarrow> 15 | Some d \<Rightarrow> d)"

definition stored_streak :: "store \<Rightarrow> streak_state" where
  "stored_streak st = (case streak st of None \<Rightarrow> default_streak | Some s \<Rightarrow> s)"

text \<open>
  \<^verbatim>\<open>update_streak(store, minutes_done)\<close>. The date that \<^verbatim>\<open>date.today()\<close> returns is the
  parameter \<open>today_str\<close>. The function returns the streak and stores it in the document:
  the model returns both. The running total and the difference in the crossing test are
  float operations.
\<close>

definition update_streak :: "store \<Rightarrow> real \<Rightarrow> string \<Rightarrow> store \<times> streak_state" where
  "update_streak st minutes_done today_str =
     (let target = daily_target st;
          s = stored_streak st;
          s' = (if last_date s \<noteq> Some today_str
                then s\<lparr>minutes_today := minutes_done,
                       current := (if target \<le> minutes_done then current s + 1 else 0),
                       last_date := Some today_str\<rparr>
                else let s1 = s\<lparr>minutes_today := fadd (minutes_today s) minutes_done\<rparr>
                     in if target \<le> minutes_today s1
                           \<and> fsub (minutes_today s1) minutes_done < target
                        then s1\<lparr>current := current s1 + 1\<rparr>
                        else s1)
      in (st\<lparr>streak := Some s'\<rparr>, s'))"

subsection \<open>Segment flattener\<close>

text \<open>The exceptions the modelled code can raise.\<close>

datatype py_error = TypeError | IndexError

text \<open>
  A title or topic is a string, or Python's \<^verbatim>\<open>None\<close> when \<^verbatim>\<open>dict.get\<close> finds no such
  key.
\<close>

type_synonym title = "string option"

text \<open>
  A segment of the stored document. Each of its four keys may be absent; a key that is
  present holds a value of the expected type.
\<close>

record segment =
  seg_topic :: "string option"
  seg_mins :: "real option"
  seg_difficulty :: "int option"
  seg_order :: "int option"

record lecture =
  title :: title
  segments :: "segment list option"

text \<open>
  A flattened item. The key \<^verbatim>\<open>id\<close>, the string \<^verbatim>\<open>f'{li}-{si}'\<close>, is kept as the pair
  of the two indices.
\<close>

record item =
  item_id :: "nat \<times> nat"
  lecture_index :: nat
  lecture_title :: title
  topic :: "string option"
  mins :: real
  difficulty :: int
  order :: int

text \<open>
  The dictionary built for one segment. \<^verbatim>\<open>seg.get('topic')\<close> yields \<^verbatim>\<open>None\<close> for a
  missing key; \<^verbatim>\<open>float(seg.get('mins'))\<close> is \<^verbatim>\<open>float(None)\<close> for a missing key, which
  raises \<^verbatim>\<open>TypeError\<close>; difficulty and order default to 3 and 1.
\<close>

definition make_item :: "nat \<Rightarrow> lecture \<Rightarrow> nat \<Rightarrow> segment \<Rightarrow> py_error + item" where
  "make_item li lec si seg =
     (case seg_mins seg of
        None \<Rightarrow> Inl TypeError
      | Some m \<Rightarrow>
          Inr \<lparr>item_id = (li, si), lecture_index = li, lecture_title = title lec,
               topic = seg_topic seg, mins = m,
               difficulty = (case seg_difficulty seg of None \<Rightarrow> 3 | Some d \<Rightarrow> d),
               order = (case seg_order seg of None \<Rightarrow> 1 | Some k \<Rightarrow> k)\<rparr>)"

text \<open>\<^verbatim>\<open>lec.get('segments', [])\<close>\<close>

definition lecture_segments :: "lecture \<Rightarrow> segment list" where
  "lecture_segments lec = (case segments lec of None \<Rightarrow> [] | Some segs \<Rightarrow> segs)"

text \<open>The inner loop over \<^verbatim>\<open>enumerate\<close> of one lecture's segments; the first error ends it.\<close>

fun flatten_lecture :: "nat \<Rightarrow> lecture \<Rightarrow> (nat \<times> segment) list \<Rightarrow> py_error + item list" where
  "flatten_lecture li lec [] = Inr []"
| "flatten_lecture li lec ((si, seg) # rest) =
     (case make_item li lec si seg of
        Inl e \<Rightarrow> Inl e
      | Inr it \<Rightarrow>
          (case flatten_lecture li lec rest of
             Inl e \<Rightarrow> Inl e
           | Inr its \<Rightarrow> Inr (it # its)))"

text \<open>The outer loop over \<^verbatim>\<open>enumerate(lectures)\<close>.\<close>

fun flatten_lectures :: "(nat \<times> lecture) list \<Rightarrow> py_error + item list" where
  "flatten_lectures [] = Inr []"
| "flatten_lectures ((li, lec) # rest) =
     (case flatten_lecture li lec (enumerate 0 (lecture_segments lec)) of
        Inl e \<Rightarrow> Inl e
      | Inr its \<Rightarrow>
          (case flatten_lectures rest of
             Inl e \<Rightarrow> Inl e
           | Inr others \<Rightarrow> Inr (its @ others)))"

definition flatten_segments :: "lecture list \<Rightarrow> py_error + item list" where
  "flatten_segments lectures = flatten_lectures (enumerate 0 lectures)"

subsection \<open>Eligibility filter\<close>

text \<open>
  A record of \<^verbatim>\<open>completed_courses\<close>; the code reads its keys \<^verbatim>\<open>lecture_title\<close> and
  \<^verbatim>\<open>topic\<close>, which every record the application appends has.
\<close>

record completed =
  completed_title :: title
  completed_topic :: "string option"

definition completed_set :: "completed list \<Rightarrow> (title \<times> string option) set" where
  "completed_set completed_courses =
     set (map (\<lambda>c. (completed_title c, completed_topic c)) completed_courses)"

definition drop_completed :: "completed list \<Rightarrow> item list \<Rightarrow> item list" where
  "drop_completed completed_courses items =
     filter (\<lambda>it. (lecture_title it, topic it) \<notin> completed_set completed_courses) items"

text \<open>
  \<^verbatim>\<open>if selected_lectures:\<close> holds for a list that is neither \<^verbatim>\<open>None\<close> nor empty.
\<close>

definition restrict_scope :: "title list option \<Rightarrow> item list \<Rightarrow> item list" where
  "restrict_scope selected_lectures items =
     (case selected_lectures of
        None \<Rightarrow> items
      | Some sel \<Rightarrow> if sel = [] then items
                    else filter (\<lambda>it. lecture_title it \<in> set sel) items)"

text \<open>
  \<^verbatim>\<open>order_map\<close> is a \<^verbatim>\<open>defaultdict(list)\<close> keyed by lecture title. A dictionary iterates
  in insertion order, so it is an association list in order of first appearance.
\<close>

fun order_map_append :: "item \<Rightarrow> (title \<times> item list) list \<Rightarrow> (title \<times> item list) list" where
  "order_map_append it [] = [(lecture_title it, [it])]"
| "order_map_append it ((k, segs) # m) =
     (if k = lecture_title it then (k, segs @ [it]) # m
      else (k, segs) # order_map_append it m)"

definition order_map :: "item list \<Rightarrow> (title \<times> item list) list" where
  "order_map items = foldl (\<lambda>m it. order_map_append it m) [] items"

text \<open>
  The loop over one lecture's sorted segments, with the set \<^verbatim>\<open>available_orders\<close> as an
  argument.
\<close>

fun gate :: "int set \<Rightarrow> item list \<Rightarrow> item list" where
  "gate available_orders [] = []"
| "gate available_orders (s # segs) =
     (if order s = 1 \<or> order s \<in> available_orders
      then s # gate (insert (order s + 1) available_orders) segs
      else gate available_orders segs)"

text \<open>\<^verbatim>\<open>segs.sort(key=...)\<close> is stable, as \<open>sort_key\<close> is.\<close>

definition soft_order_gate :: "item list \<Rightarrow> item list" where
  "soft_order_gate segs = gate {1} (sort_key order segs)"

definition soft_order_filter :: "item list \<Rightarrow> item list" where
  "soft_order_filter items = concat (map (\<lambda>(lec, segs). soft_order_gate segs) (order_map items))"

subsection \<open>Subset-sum selector\<close>

text \<open>
  Python's \<^verbatim>\<open>xs[i]\<close>: a negative index counts from the end, an index outside the list
  raises \<^verbatim>\<open>IndexError\<close>.
\<close>

definition py_nth :: "'a list \<Rightarrow> int \<Rightarrow> py_error + 'a" where
  "py_nth xs i =
     (if 0 \<le> i then (if i < int (length xs) then Inr (xs ! nat i) else Inl IndexError)
      else if - int (length xs) \<le> i then Inr (xs ! nat (int (length xs) + i))
      else Inl IndexError)"

text \<open>\<^verbatim>\<open>dp=[-1]*(cap+1); dp[0]=-2\<close>\<close>

definition init_dp :: "nat \<Rightarrow> int list" where
  "init_dp cap = (replicate (cap + 1) (- 1))[0 := - 2]"

text \<open>
  The body of the inner loop for item \<open>i\<close> of weight \<open>w\<close> at capacity \<open>s\<close>; the loop
  only visits \<open>w \<le> s \<le> cap\<close>, inside the table.
\<close>

definition relax :: "nat \<Rightarrow> nat \<Rightarrow> nat \<Rightarrow> int list \<Rightarrow> int list" where
  "relax i w s dp = (if dp ! s = - 1 \<and> dp ! (s - w) \<noteq> - 1 then dp[s := int i] else dp)"

text \<open>
  The loop over \<^verbatim>\<open>enumerate(scaled)\<close>, given as the list of pairs of an index and a unit
  weight; \<^verbatim>\<open>range(cap, w-1, -1)\<close> is \<open>rev [w..<Suc cap]\<close>.
\<close>

fun fill_dp :: "nat \<Rightarrow> (nat \<times> nat) list \<Rightarrow> int list \<Rightarrow> int list" where
  "fill_dp cap [] dp = dp"
| "fill_dp cap ((i, w) # rest) dp =
     fill_dp cap rest (if w \<le> 0 then dp else fold (relax i w) (rev [w..<Suc cap]) dp)"

text \<open>Lines 118 to 124: the table for capacity \<open>cap\<close> and the unit weights \<open>us\<close>.\<close>

definition dp_table :: "nat \<Rightarrow> nat list \<Rightarrow> int list" where
  "dp_table cap us = fill_dp cap (enumerate 0 us) (init_dp cap)"

text \<open>The primary scan: the last reached capacity of \<^verbatim>\<open>range(low_u, cap+1)\<close>, else \<open>-1\<close>.\<close>

definition scan_window :: "int list \<Rightarrow> nat \<Rightarrow> nat \<Rightarrow> int" where
  "scan_window dp low_u cap =
     fold (\<lambda>s best. if dp ! s \<noteq> - 1 then int s else best) [low_u..<Suc cap] (- 1)"

text \<open>
  A scan that stops at the first reached capacity of the given range, else \<open>-1\<close>. The
  downward scan starts at \<^verbatim>\<open>low_u-1\<close>, which can lie beyond the table: reading there
  raises \<^verbatim>\<open>IndexError\<close>.
\<close>

fun first_reached :: "int list \<Rightarrow> nat list \<Rightarrow> py_error + int" where
  "first_reached dp [] = Inr (- 1)"
| "first_reached dp (s # ss) =
     (if length dp \<le> s then Inl IndexError
      else if dp ! s \<noteq> - 1 then Inr (int s)
      else first_reached dp ss)"

text \<open>Lines 126 to 134: the primary scan, the downward scan, the upward scan.\<close>

definition choose_best :: "int list \<Rightarrow> nat \<Rightarrow> nat \<Rightarrow> py_error + int" where
  "choose_best dp low_u cap =
     (let best = scan_window dp low_u cap
      in if best = - 1
         then (case first_reached dp (rev [0..<low_u]) of
                 Inl e \<Rightarrow> Inl e
               | Inr best \<Rightarrow>
                   if best = - 1 then first_reached dp [Suc low_u..<Suc cap]
                   else Inr best)
         else Inr best)"

text \<open>The same lines with the upward scan (lines 132 to 134) removed.\<close>

definition choose_best_no_upscan :: "int list \<Rightarrow> nat \<Rightarrow> nat \<Rightarrow> py_error + int" where
  "choose_best_no_upscan dp low_u cap =
     (let best = scan_window dp low_u cap
      in if best = - 1
         then (case first_reached dp (rev [0..<low_u]) of
                 Inl e \<Rightarrow> Inl e
               | Inr best \<Rightarrow> Inr best)
         else Inr best)"

text \<open>
  The reconstruction loop. Its state is \<^verbatim>\<open>chosen_indices\<close>, kept as the list of indices
  in the order they were added, and \<^verbatim>\<open>cur\<close>; the result also tells whether the loop
  was left through the repeat-index guard (\<^verbatim>\<open>break\<close>). Every round adds to
  \<^verbatim>\<open>chosen_indices\<close> an entry of the table that was not in it, so the loop ends.
\<close>

function backtrack :: "int list \<Rightarrow> nat list \<Rightarrow> int list \<Rightarrow> int \<Rightarrow> py_error + (int list \<times> int \<times> bool)" where
  "backtrack dp us chosen_indices cur =
     (if 0 < cur
      then (case py_nth dp cur of
              Inl e \<Rightarrow> Inl e
            | Inr i \<Rightarrow>
                if i \<in> set chosen_indices then Inr (chosen_indices, cur, True)
                else (case py_nth us i of
                        Inl e \<Rightarrow> Inl e
                      | Inr u \<Rightarrow> backtrack dp us (chosen_indices @ [i]) (cur - int u)))
      else Inr (chosen_indices, cur, False))"
  by pat_completeness auto
termination
proof (relation "measure (\<lambda>(dp, us, chosen_indices, cur). card (set dp - set chosen_indices))")
  show "wf (measure (\<lambda>(dp, us, chosen_indices, cur). card (set dp - set chosen_indices)))"
    by simp
next
  fix dp :: "int list" and us :: "nat list" and chosen_indices :: "int list"
    and cur i :: int and u :: nat
  assume get: "py_nth dp cur = Inr i" and new: "i \<notin> set chosen_indices"
  have "i \<in> set dp"
    using get by (auto simp: py_nth_def split: if_splits)
  then have "set dp - set (chosen_indices @ [i]) \<subset> set dp - set chosen_indices"
    using new by auto
  then have "card (set dp - set (chosen_indices @ [i])) < card (set dp - set chosen_indices)"
    by (intro psubset_card_mono) simp_all
  then show "((dp, us, chosen_indices @ [i], cur - int u), (dp, us, chosen_indices, cur))
      \<in> measure (\<lambda>(dp, us, chosen_indices, cur). card (set dp - set chosen_indices))"
    by simp
qed

declare backtrack.simps [simp del]

text \<open>\<^verbatim>\<open>[... scaled[i] ... for i in chosen_indices]\<close>\<close>

fun lookup_all :: "'a list \<Rightarrow> int list \<Rightarrow> py_error + 'a list" where
  "lookup_all xs [] = Inr []"
| "lookup_all xs (i # rest) =
     (case py_nth xs i of
        Inl e \<Rightarrow> Inl e
      | Inr x \<Rightarrow>
          (case lookup_all xs rest of
             Inl e \<Rightarrow> Inl e
           | Inr ys \<Rightarrow> Inr (x # ys)))"

text \<open>A recommended segment as the selector returns it: five of the item's keys.\<close>

record chosen_segment =
  chosen_title :: title
  chosen_topic :: "string option"
  chosen_mins :: real
  chosen_difficulty :: int
  chosen_order :: int

definition to_chosen :: "item \<Rightarrow> chosen_segment" where
  "to_chosen it = \<lparr>chosen_title = lecture_title it, chosen_topic = topic it,
     chosen_mins = mins it, chosen_difficulty = difficulty it, chosen_order = order it\<rparr>"

text \<open>\<^verbatim>\<open>scaled\<close>: every item with its unit weight \<^verbatim>\<open>u\<close>.\<close>

definition scaled_items :: "item list \<Rightarrow> (nat \<times> item) list" where
  "scaled_items items = map (\<lambda>it. (to_units (mins it), it)) items"

text \<open>
  Lines 116 to 150, with lines 126 to 134 as the parameter \<open>chooser\<close>. The list
  comprehension at the end iterates over a Python set, whose order is not fixed by the
  language; the model lists the chosen segments in the order the indices were added.
\<close>

definition select_with ::
  "(int list \<Rightarrow> nat \<Rightarrow> nat \<Rightarrow> py_error + int) \<Rightarrow> item list \<Rightarrow> nat \<Rightarrow> nat
     \<Rightarrow> py_error + (chosen_segment list \<times> real)" where
  "select_with chooser items low_u high_u =
     (let scaled = scaled_items items;
          cap = min (sum_list (map fst scaled)) high_u;
          dp = dp_table cap (map fst scaled)
      in case chooser dp low_u cap of
           Inl e \<Rightarrow> Inl e
         | Inr best \<Rightarrow>
             if best \<le> 0 then Inr ([], 0)
             else (case backtrack dp (map fst scaled) [] best of
                     Inl e \<Rightarrow> Inl e
                   | Inr (chosen_indices, cur, guard) \<Rightarrow>
                       (case lookup_all scaled chosen_indices of
                          Inl e \<Rightarrow> Inl e
                        | Inr picked \<Rightarrow>
                            let chosen = map (to_chosen \<circ> snd) picked
                            in Inr (chosen, py_sum (map chosen_mins chosen)))))"

definition select_segments :: "item list \<Rightarrow> nat \<Rightarrow> nat \<Rightarrow> py_error + (chosen_segment list \<times> real)" where
  "select_segments = select_with choose_best"

subsection \<open>The recommendation\<close>

text \<open>
  What \<^verbatim>\<open>recommend_segments\<close> returns: either all eligible items with their total (the
  short cut of line 114, which returns the flattened items themselves), or the chosen
  segments with their total; \<^verbatim>\<open>[], 0.0\<close> is the empty selection.
\<close>

datatype recommendation =
  Everything "item list" real
| Selection "chosen_segment list" real

definition recommend_with ::
  "(int list \<Rightarrow> nat \<Rightarrow> nat \<Rightarrow> py_error + int) \<Rightarrow> lecture list \<Rightarrow> real \<Rightarrow> real
     \<Rightarrow> completed list \<Rightarrow> title list option \<Rightarrow> py_error + recommendation" where
  "recommend_with chooser lectures dm fatigue_score completed_courses selected_lectures =
     (case flatten_segments lectures of
        Inl e \<Rightarrow> Inl e
      | Inr items \<Rightarrow>
          if items = [] then Inr (Selection [] 0)
          else let items = restrict_scope selected_lectures
                             (drop_completed completed_courses items)
          in if items = [] then Inr (Selection [] 0)
          else let items = soft_order_filter items
          in if items = [] then Inr (Selection [] 0)
          else let total_available_time = py_sum (map mins items);
                   (low_u, high_u) = budget_window dm fatigue_score
          in if total_available_time < from_units low_u
             then Inr (Everything items total_available_time)
             else (case select_with chooser items low_u high_u of
                     Inl e \<Rightarrow> Inl e
                   | Inr (chosen, chosen_total) \<Rightarrow> Inr (Selection chosen chosen_total)))"

definition recommend_segments ::
  "lecture list \<Rightarrow> real \<Rightarrow> real \<Rightarrow> completed list \<Rightarrow> title list option
     \<Rightarrow> py_error + recommendation" where
  "recommend_segments = recommend_with choose_best"

text \<open>The titles and topics a recommendation names.\<close>

fun recommended_keys :: "recommendation \<Rightarrow> (title \<times> string option) list" where
  "recommended_keys (Everything items t) = map (\<lambda>it. (lecture_title it, topic it)) items"
| "recommended_keys (Selection chosen t) =
     map (\<lambda>c. (chosen_title c, chosen_topic c)) chosen"

subsection \<open>Example documents\<close>

text \<open>Segments and lectures with all keys present, for the concrete instances below.\<close>

definition example_segment :: "string \<Rightarrow> real \<Rightarrow> int \<Rightarrow> segment" where
  "example_segment t m k =
     \<lparr>seg_topic = Some t, seg_mins = Some m, seg_difficulty = Some 3, seg_order = Some k\<rparr>"

definition example_lecture :: "string \<Rightarrow> segment list \<Rightarrow> lecture" where
  "example_lecture t segs = \<lparr>title = Some t, segments = Some segs\<rparr>"

definition example_item :: "nat \<Rightarrow> string \<Rightarrow> real \<Rightarrow> int \<Rightarrow> item" where
  "example_item si t m k =
     \<lparr>item_id = (0, si), lecture_index = 0, lecture_title = Some ''T'', topic = Some t,
      mins = m, difficulty = 3, order = k\<rparr>"

subsection \<open>Facts about double-precision rounding\<close>

lemma py_round_bound: "\<bar>of_int (py_round x) - x\<bar> \<le> 1 / 2"
proof -
  have "of_int \<lfloor>x\<rfloor> \<le> x" and "x < of_int \<lfloor>x\<rfloor> + 1"
    by linarith+
  then show ?thesis
    unfolding py_round_def Let_def by (auto simp: abs_le_iff)
qed

lemma py_round_of_int: "py_round (of_int n) = n"
  by (simp add: py_round_def)

lemma py_round_mono: "x \<le> y \<Longrightarrow> py_round x \<le> py_round y"
proof -
  assume xy: "x \<le> y"
  have fx: "of_int \<lfloor>x\<rfloor> \<le> x" "x < of_int \<lfloor>x\<rfloor> + 1" by linarith+
  have fy: "of_int \<lfloor>y\<rfloor> \<le> y" "y < of_int \<lfloor>y\<rfloor> + 1" by linarith+
  have rx: "\<lfloor>x\<rfloor> \<le> py_round x" "py_round x \<le> \<lfloor>x\<rfloor> + 1"
    unfolding py_round_def Let_def by auto
  have ry: "\<lfloor>y\<rfloor> \<le> py_round y" "py_round y \<le> \<lfloor>y\<rfloor> + 1"
    unfolding py_round_def Let_def by auto
  show ?thesis
  proof (cases "\<lfloor>x\<rfloor> = \<lfloor>y\<rfloor>")
    case True
    then show ?thesis using xy unfolding py_round_def Let_def by auto
  next
    case False
    moreover have "\<lfloor>x\<rfloor> \<le> \<lfloor>y\<rfloor>" using xy by (rule floor_mono)
    ultimately have "\<lfloor>x\<rfloor> + 1 \<le> \<lfloor>y\<rfloor>" by simp
    then show ?thesis using rx ry by linarith
  qed
qed

lemma py_round_nonneg: "0 \<le> x \<Longrightarrow> 0 \<le> py_round x"
  using py_round_mono [of 0 x] py_round_of_int [of 0] by simp

lemma py_round_nonpos: "x \<le> 0 \<Longrightarrow> py_round x \<le> 0"
  using py_round_mono [of x 0] py_round_of_int [of 0] by simp

lemma binade_bounds: "0 < x \<Longrightarrow> 2 powi (binade x) \<le> x \<and> x < 2 powi (binade x + 1)"
proof (induction x rule: binade.induct)
  case (1 x)
  show ?case
  proof (cases "x < 1")
    case True
    then have b: "binade x = binade (2 * x) - 1"
      using "1.prems" by (simp add: binade.simps [of x])
    have "2 powi (binade (2 * x)) \<le> 2 * x \<and> 2 * x < 2 powi (binade (2 * x) + 1)"
      using "1.IH"(1) "1.prems" True by simp
    then show ?thesis unfolding b by (simp add: power_int_diff power_int_add)
  next
    case False
    show ?thesis
    proof (cases "2 \<le> x")
      case True
      then have b: "binade x = binade (x / 2) + 1"
        using "1.prems" False by (simp add: binade.simps [of x])
      have "2 powi (binade (x / 2)) \<le> x / 2 \<and> x / 2 < 2 powi (binade (x / 2) + 1)"
        using "1.IH"(2) "1.prems" False True by simp
      then show ?thesis unfolding b by (simp add: power_int_add)
    next
      case F2: False
      then have "binade x = 0" using "1.prems" False by (simp add: binade.simps [of x])
      then show ?thesis using False F2 by simp
    qed
  qed
qed

lemma pow2_add: "(2::real) powi (a + b) = 2 powi a * 2 powi b"
  by (simp add: power_int_add)

lemma pow2_Suc: "(2::real) powi (a + 1) = 2 * 2 powi a"
  using pow2_add [of a 1] by simp

lemma pow2_le_iff: "(2::real) powi a \<le> 2 powi b \<longleftrightarrow> a \<le> b"
proof
  assume le: "(2::real) powi a \<le> 2 powi b"
  show "a \<le> b"
  proof (rule ccontr)
    assume "\<not> a \<le> b"
    then have "b < a" by simp
    then have "(2::real) powi b < 2 powi a" by (intro power_int_strict_increasing) simp_all
    with le show False by linarith
  qed
next
  assume "a \<le> b"
  then show "(2::real) powi a \<le> 2 powi b" by (intro power_int_increasing) simp_all
qed

lemma pow2_less_iff: "(2::real) powi a < 2 powi b \<longleftrightarrow> a < b"
  using pow2_le_iff [of b a] by (simp add: not_le [symmetric])

lemma binade_unique:
  assumes "0 < x" and "2 powi e \<le> x" and "x < 2 powi (e + 1)"
  shows "binade x = e"
proof -
  from binade_bounds [OF assms(1)]
  have b: "2 powi (binade x) \<le> x" "x < 2 powi (binade x + 1)" by simp_all
  have "(2::real) powi e < 2 powi (binade x + 1)" using assms(2) b(2) by linarith
  then have "e < binade x + 1" by (simp only: pow2_less_iff)
  moreover have "(2::real) powi (binade x) < 2 powi (e + 1)" using assms(3) b(1) by linarith
  then have "binade x < e + 1" by (simp only: pow2_less_iff)
  ultimately show ?thesis by simp
qed

lemma double_zero: "double 0 = 0"
  by (simp add: double_def)

lemma double_nonneg: "0 \<le> x \<Longrightarrow> 0 \<le> double x"
  unfolding double_def Let_def
  by (auto intro!: mult_nonneg_nonneg py_round_nonneg divide_nonneg_pos)

lemma double_nonpos: "x \<le> 0 \<Longrightarrow> double x \<le> 0"
proof -
  assume x: "x \<le> 0"
  have "x / 2 powi (binade \<bar>x\<bar> - 52) \<le> 0" using x by (simp add: divide_nonpos_pos)
  then have "py_round (x / 2 powi (binade \<bar>x\<bar> - 52)) \<le> 0" by (rule py_round_nonpos)
  then have "of_int (py_round (x / 2 powi (binade \<bar>x\<bar> - 52))) * 2 powi (binade \<bar>x\<bar> - 52) \<le> (0::real)"
    by (intro mult_nonpos_nonneg) simp_all
  then show ?thesis unfolding double_def Let_def by simp
qed

text \<open>The rounding error is at most half a unit in the last place.\<close>

lemma double_error_ulp:
  "x \<noteq> 0 \<Longrightarrow> \<bar>double x - x\<bar> \<le> 2 powi (binade \<bar>x\<bar> - 53)"
proof -
  assume x: "x \<noteq> 0"
  let ?u = "(2::real) powi (binade \<bar>x\<bar> - 52)"
  have u: "0 < ?u" by simp
  have "\<bar>of_int (py_round (x / ?u)) - x / ?u\<bar> \<le> 1 / 2" by (rule py_round_bound)
  then have "\<bar>of_int (py_round (x / ?u)) - x / ?u\<bar> * ?u \<le> 1 / 2 * ?u"
    using u by (intro mult_right_mono) simp_all
  moreover have "\<bar>of_int (py_round (x / ?u)) - x / ?u\<bar> * ?u
      = \<bar>of_int (py_round (x / ?u)) * ?u - x\<bar>"
  proof -
    have "\<bar>of_int (py_round (x / ?u)) - x / ?u\<bar> * ?u
        = \<bar>(of_int (py_round (x / ?u)) - x / ?u) * ?u\<bar>"
      using u by (simp add: abs_mult)
    also have "(of_int (py_round (x / ?u)) - x / ?u) * ?u = of_int (py_round (x / ?u)) * ?u - x"
      using u by (simp add: left_diff_distrib)
    finally show ?thesis .
  qed
  moreover have "1 / 2 * ?u = 2 powi (binade \<bar>x\<bar> - 53)"
    using pow2_Suc [of "binade \<bar>x\<bar> - 53"] by simp
  ultimately show ?thesis using x unfolding double_def Let_def by simp
qed

lemma double_error: "\<bar>double x - x\<bar> \<le> \<bar>x\<bar> * 2 powi (- 53)"
proof (cases "x = 0")
  case True
  then show ?thesis by (simp add: double_zero)
next
  case False
  then have pos: "0 < \<bar>x\<bar>" by simp
  have "2 powi (binade \<bar>x\<bar> - 53) = 2 powi (binade \<bar>x\<bar>) * (2::real) powi (- 53)"
    using pow2_add [of "binade \<bar>x\<bar>" "- 53"] by simp
  also have "\<dots> \<le> \<bar>x\<bar> * 2 powi (- 53)"
    using binade_bounds [OF pos] by (intro mult_right_mono) simp_all
  finally show ?thesis using double_error_ulp [OF False] by linarith
qed


lemma double_pos_eq:
  "0 < x \<Longrightarrow> double x = of_int (py_round (x / 2 powi (binade x - 52))) * 2 powi (binade x - 52)"
  by (simp add: double_def Let_def)

lemma double_upper: "0 < x \<Longrightarrow> double x \<le> 2 powi (binade x + 1)"
proof -
  assume x: "0 < x"
  let ?u = "(2::real) powi (binade x - 52)"
  have u: "0 < ?u" by simp
  have "binade x + 1 = (binade x - 52) + 53" by simp
  then have "2 powi (binade x + 1) = ?u * 2 powi 53"
    by (simp only: pow2_add)
  then have top: "2 powi (binade x + 1) = ?u * 9007199254740992" by simp
  have "x < 2 powi (binade x + 1)" using binade_bounds [OF x] by simp
  then have "x / ?u \<le> 9007199254740992" using u top by (simp add: field_simps)
  then have "py_round (x / ?u) \<le> py_round (of_int 9007199254740992)"
    by (intro py_round_mono) simp
  then have "py_round (x / ?u) \<le> 9007199254740992" by (simp only: py_round_of_int)
  then have "real_of_int (py_round (x / ?u)) \<le> 9007199254740992" by linarith
  then have "real_of_int (py_round (x / ?u)) * ?u \<le> 9007199254740992 * ?u"
    using u by (intro mult_right_mono) simp_all
  then show ?thesis using top double_pos_eq [OF x] by (simp add: mult.commute)
qed

lemma double_lower: "0 < x \<Longrightarrow> 2 powi (binade x) \<le> double x"
proof -
  assume x: "0 < x"
  let ?u = "(2::real) powi (binade x - 52)"
  have u: "0 < ?u" by simp
  have "binade x = (binade x - 52) + 52" by simp
  then have "2 powi (binade x) = ?u * 2 powi 52"
    using pow2_add [of "binade x - 52" 52] by simp
  then have bot: "2 powi (binade x) = ?u * 4503599627370496" by simp
  have "2 powi (binade x) \<le> x" using binade_bounds [OF x] by simp
  then have "4503599627370496 \<le> x / ?u" using u bot by (simp add: field_simps)
  then have "py_round (of_int 4503599627370496) \<le> py_round (x / ?u)"
    by (intro py_round_mono) simp
  then have "4503599627370496 \<le> py_round (x / ?u)" by (simp only: py_round_of_int)
  then have "4503599627370496 \<le> real_of_int (py_round (x / ?u))" by linarith
  then have "4503599627370496 * ?u \<le> real_of_int (py_round (x / ?u)) * ?u"
    using u by (intro mult_right_mono) simp_all
  then show ?thesis using bot double_pos_eq [OF x] by (simp add: mult.commute)
qed

lemma double_mono_pos:
  assumes "0 < x" and "x \<le> y"
  shows "double x \<le> double y"
proof -
  have y: "0 < y" using assms by linarith
  have bx: "2 powi (binade x) \<le> x" "x < 2 powi (binade x + 1)"
    using binade_bounds [OF assms(1)] by simp_all
  have by': "2 powi (binade y) \<le> y" "y < 2 powi (binade y + 1)"
    using binade_bounds [OF y] by simp_all
  have "(2::real) powi (binade x) < 2 powi (binade y + 1)" using bx(1) assms(2) by'(2) by linarith
  then have "binade x < binade y + 1" by (simp only: pow2_less_iff)
  then have le: "binade x \<le> binade y" by simp
  show ?thesis
  proof (cases "binade x = binade y")
    case True
    let ?u = "(2::real) powi (binade y - 52)"
    have "x / ?u \<le> y / ?u" using assms(2) by (simp add: divide_right_mono)
    then have "py_round (x / ?u) \<le> py_round (y / ?u)" by (rule py_round_mono)
    then have "real_of_int (py_round (x / ?u)) \<le> real_of_int (py_round (y / ?u))" by simp
    then have "real_of_int (py_round (x / ?u)) * ?u \<le> real_of_int (py_round (y / ?u)) * ?u"
      by (intro mult_right_mono) simp_all
    then show ?thesis using double_pos_eq [OF assms(1)] double_pos_eq [OF y] True by simp
  next
    case False
    with le have "binade x + 1 \<le> binade y" by simp
    then have "(2::real) powi (binade x + 1) \<le> 2 powi (binade y)" by (simp only: pow2_le_iff)
    then show ?thesis using double_upper [OF assms(1)] double_lower [OF y] by linarith
  qed
qed

lemma py_round_minus: "py_round (- x) = - py_round x"
proof (cases "x = of_int \<lfloor>x\<rfloor>")
  case True
  then obtain n where "x = of_int n" by blast
  then show ?thesis using py_round_of_int [of n] py_round_of_int [of "- n"] by simp
next
  case False
  have fl: "of_int \<lfloor>x\<rfloor> \<le> x" "x < of_int \<lfloor>x\<rfloor> + 1" by linarith+
  with False have lt: "of_int \<lfloor>x\<rfloor> < x" by argo
  have cast: "real_of_int (- \<lfloor>x\<rfloor> - 1) = - real_of_int \<lfloor>x\<rfloor> - 1" by simp
  have "real_of_int (- \<lfloor>x\<rfloor> - 1) \<le> - x" "- x < real_of_int (- \<lfloor>x\<rfloor> - 1) + 1"
    using lt fl(2) cast by argo+
  then have "\<lfloor>- x\<rfloor> = - \<lfloor>x\<rfloor> - 1"
    by (rule floor_unique)
  then show ?thesis unfolding py_round_def Let_def by auto
qed

lemma double_minus: "double (- x) = - double x"
  by (simp add: double_def Let_def py_round_minus)

lemma double_mono: "x \<le> y \<Longrightarrow> double x \<le> double y"
proof -
  assume xy: "x \<le> y"
  consider "0 < x" | "x \<le> 0" "0 \<le> y" | "y < 0" by linarith
  then show ?thesis
  proof cases
    case 1
    then show ?thesis using xy by (rule double_mono_pos)
  next
    case 2
    then show ?thesis using double_nonpos [of x] double_nonneg [of y] by linarith
  next
    case 3
    then have "0 < - y" "- y \<le> - x" using xy by simp_all
    then have "double (- y) \<le> double (- x)" by (rule double_mono_pos)
    then show ?thesis by (simp add: double_minus)
  qed
qed


lemma double_exact:
  assumes "x / 2 powi (binade \<bar>x\<bar> - 52) = of_int m"
  shows "double x = x"
proof (cases "x = 0")
  case True
  then show ?thesis by (simp add: double_zero)
next
  case False
  have "double x = of_int (py_round (of_int m)) * 2 powi (binade \<bar>x\<bar> - 52)"
    using False assms by (simp add: double_def Let_def)
  also have "\<dots> = of_int m * 2 powi (binade \<bar>x\<bar> - 52)" by (simp only: py_round_of_int)
  also have "\<dots> = x" using assms [symmetric] by simp
  finally show ?thesis .
qed

lemma double_repr:
  assumes "\<bar>k\<bar> \<le> 9007199254740992"
  shows "double (of_int k * 2 powi j) = of_int k * 2 powi j"
proof (cases "k = 0")
  case True
  then show ?thesis by (simp add: double_zero)
next
  case False
  let ?y = "real_of_int k * 2 powi j"
  let ?e = "binade \<bar>?y\<bar>"
  have ay: "\<bar>?y\<bar> = real_of_int \<bar>k\<bar> * 2 powi j" by (simp add: abs_mult)
  have pos: "0 < \<bar>?y\<bar>" using False by simp
  have lo: "2 powi ?e \<le> \<bar>?y\<bar>" using binade_bounds [OF pos] by simp
  have "real_of_int \<bar>k\<bar> \<le> 9007199254740992" using assms by linarith
  then have "\<bar>?y\<bar> \<le> 9007199254740992 * 2 powi j"
    unfolding ay by (intro mult_right_mono) simp_all
  also have "9007199254740992 * 2 powi j = (2::real) powi (53 + j)"
    using pow2_add [of 53 j] by simp
  finally have "(2::real) powi ?e \<le> 2 powi (53 + j)" using lo by linarith
  then have e_le: "?e \<le> 53 + j" by (simp only: pow2_le_iff)
  have split: "(2::real) powi j = 2 powi (j - ?e + 52) * 2 powi (?e - 52)"
    using pow2_add [of "j - ?e + 52" "?e - 52"] by simp
  have quot: "?y / 2 powi (?e - 52) = real_of_int k * 2 powi (j - ?e + 52)"
    by (subst split) simp
  show ?thesis
  proof (cases "?e \<le> 52 + j")
    case True
    then have "(2::real) powi (j - ?e + 52) = of_int (2 ^ nat (j - ?e + 52))"
      by (simp add: power_int_def)
    then have "?y / 2 powi (?e - 52) = of_int (k * 2 ^ nat (j - ?e + 52))"
      using quot by simp
    then show ?thesis by (rule double_exact)
  next
    case F: False
    with e_le have e: "?e = 53 + j" by simp
    then have "(2::real) powi (53 + j) \<le> real_of_int \<bar>k\<bar> * 2 powi j" using lo ay by simp
    moreover have "(2::real) powi (53 + j) = 9007199254740992 * 2 powi j"
      using pow2_add [of 53 j] by simp
    ultimately have "9007199254740992 * (2::real) powi j \<le> real_of_int \<bar>k\<bar> * 2 powi j"
      by simp
    then have "9007199254740992 \<le> real_of_int \<bar>k\<bar>"
      by (simp add: mult_le_cancel_right)
    then have "\<bar>k\<bar> = 9007199254740992" using assms by linarith
    then have k2: "k = 2 * (k div 2)" by presburger
    have "j - ?e + 52 = - 1" using e by simp
    then have "?y / 2 powi (?e - 52) = real_of_int k * 2 powi (- 1)" by (simp only: quot)
    also have "\<dots> = real_of_int k / 2" by simp
    also have "\<dots> = real_of_int (k div 2)" using k2 by linarith
    finally show ?thesis by (rule double_exact)
  qed
qed

lemma double_of_int: "\<bar>n\<bar> \<le> 9007199254740992 \<Longrightarrow> double (of_int n) = of_int n"
  using double_repr [of n 0] by simp

lemma py_round_abs_le:
  assumes "\<bar>x\<bar> \<le> of_int n"
  shows "\<bar>py_round x\<bar> \<le> n"
proof -
  have "x \<le> of_int n" "of_int (- n) \<le> x" using assms by (simp_all add: abs_le_iff)
  then have "py_round x \<le> py_round (of_int n)" "py_round (of_int (- n)) \<le> py_round x"
    by (simp_all only: py_round_mono)
  then have "py_round x \<le> n" "- n \<le> py_round x" by (simp_all only: py_round_of_int)
  then show ?thesis by linarith
qed

lemma double_mantissa:
  assumes "x \<noteq> 0"
  shows "\<bar>py_round (x / 2 powi (binade \<bar>x\<bar> - 52))\<bar> \<le> 9007199254740992"
proof -
  let ?u = "(2::real) powi (binade \<bar>x\<bar> - 52)"
  have pos: "0 < \<bar>x\<bar>" using assms by simp
  have "binade \<bar>x\<bar> + 1 = (binade \<bar>x\<bar> - 52) + 53" by simp
  then have "2 powi (binade \<bar>x\<bar> + 1) = ?u * 2 powi 53" by (simp only: pow2_add)
  then have top: "2 powi (binade \<bar>x\<bar> + 1) = ?u * 9007199254740992" by simp
  have "\<bar>x\<bar> < 2 powi (binade \<bar>x\<bar> + 1)" using binade_bounds [OF pos] by simp
  then have "\<bar>x\<bar> / ?u \<le> 9007199254740992" using top by (simp add: field_simps)
  then have "\<bar>x / ?u\<bar> \<le> real_of_int 9007199254740992" by simp
  then show ?thesis by (rule py_round_abs_le)
qed

lemma double_idem: "double (double x) = double x"
proof (cases "x = 0")
  case True
  then show ?thesis by (simp add: double_zero)
next
  case False
  have "double x = of_int (py_round (x / 2 powi (binade \<bar>x\<bar> - 52))) * 2 powi (binade \<bar>x\<bar> - 52)"
    using False by (simp add: double_def Let_def)
  then show ?thesis using double_repr [OF double_mantissa [OF False]] by simp
qed

text \<open>Rounding a double to an integer gives an integer that is again a double.\<close>

lemma double_py_round:
  assumes "double x = x"
  shows "double (of_int (py_round x)) = of_int (py_round x)"
proof (cases "\<bar>x\<bar> \<le> 4503599627370496")
  case True
  then have "\<bar>x\<bar> \<le> real_of_int 4503599627370496" by simp
  then have "\<bar>py_round x\<bar> \<le> 4503599627370496" by (rule py_round_abs_le)
  then have "\<bar>py_round x\<bar> \<le> 9007199254740992" by linarith
  then show ?thesis by (rule double_of_int)
next
  case False
  then have big: "4503599627370496 < \<bar>x\<bar>" by simp
  then have nz: "x \<noteq> 0" by auto
  have pos: "0 < \<bar>x\<bar>" using nz by simp
  have "(2::real) powi 52 < 2 powi (binade \<bar>x\<bar> + 1)"
    using binade_bounds [OF pos] big by simp
  then have "52 < binade \<bar>x\<bar> + 1" by (simp only: pow2_less_iff)
  then have e: "0 \<le> binade \<bar>x\<bar> - 52" by simp
  then have u: "(2::real) powi (binade \<bar>x\<bar> - 52) = of_int (2 ^ nat (binade \<bar>x\<bar> - 52))"
    by (simp add: power_int_def)
  have "x = of_int (py_round (x / 2 powi (binade \<bar>x\<bar> - 52))) * 2 powi (binade \<bar>x\<bar> - 52)"
    using assms nz by (simp add: double_def Let_def)
  then have "x = of_int (py_round (x / 2 powi (binade \<bar>x\<bar> - 52)) * 2 ^ nat (binade \<bar>x\<bar> - 52))"
    using u by simp
  then obtain n :: int where n: "x = of_int n" ..
  then have "of_int (py_round x) = x" by (simp add: py_round_of_int)
  then show ?thesis using assms by simp
qed

lemma double_one: "double 1 = 1"
  using double_of_int [of 1] by simp

lemma double_fraction_unit: "0 \<le> c \<Longrightarrow> c \<le> 1 \<Longrightarrow> 0 \<le> double c \<and> double c \<le> 1"
  using double_nonneg [of c] double_mono [of c 1] by (simp add: double_one)

lemma py_sum_nonneg_from: "0 \<le> a \<Longrightarrow> \<forall>x\<in>set xs. 0 \<le> x \<Longrightarrow> 0 \<le> foldl fadd a xs"
proof (induction xs arbitrary: a)
  case Nil
  then show ?case by simp
next
  case (Cons x xs)
  have "0 \<le> fadd a x" unfolding fadd_def using Cons.prems by (intro double_nonneg) simp
  then show ?case using Cons.IH Cons.prems(2) by simp
qed

lemma py_sum_nonneg: "\<forall>x\<in>set xs. 0 \<le> x \<Longrightarrow> 0 \<le> py_sum xs"
  unfolding py_sum_def by (rule py_sum_nonneg_from) simp

subsection \<open>Facts about the unit converter\<close>

lemma to_units_eq:
  "0 \<le> m \<Longrightarrow> real (to_units m) = of_int (py_round (double (m * 10)))"
proof -
  assume "0 \<le> m"
  then have "0 \<le> double (m * 10)" by (intro double_nonneg) simp
  then have "0 \<le> py_round (double (m * 10))" by (rule py_round_nonneg)
  then show ?thesis by (simp add: to_units_def fmul_def SCALE_def)
qed

text \<open>
  C7, amended. For every minute value \<open>m \<ge> 0\<close> the round trip through units moves
  \<open>m\<close> by at most 0.05 minutes plus the rounding of the float product and quotient:
  \<open>|from_units (to_units m) - m| \<le> 0.05 + (m + 1) / 2^51\<close>. The bound 0.05 itself is
  reached and exceeded, so neither \<open><\<close> nor \<open>\<le>\<close> 0.05 holds.
\<close>

theorem unit_round_trip_bound:
  assumes "0 \<le> m"
  shows "\<bar>from_units (to_units m) - m\<bar> \<le> 1 / 20 + (m + 1) / 2 ^ 51"
proof -
  let ?p = "double (m * 10)"
  let ?n = "real_of_int (py_round ?p)"
  let ?r = "double (?n / 10)"
  have p0: "0 \<le> ?p" using assms by (intro double_nonneg) simp
  then have n0: "0 \<le> ?n" using py_round_nonneg [of ?p] by simp
  have "\<bar>?p - m * 10\<bar> \<le> \<bar>m * 10\<bar> * 2 powi (- 53)" by (rule double_error)
  then have e1: "\<bar>?p - m * 10\<bar> \<le> m * 10 / 9007199254740992" using assms by simp
  have e2: "\<bar>?n - ?p\<bar> \<le> 1 / 2" by (rule py_round_bound)
  have "\<bar>?r - ?n / 10\<bar> \<le> \<bar>?n / 10\<bar> * 2 powi (- 53)" by (rule double_error)
  then have e3: "\<bar>?r - ?n / 10\<bar> \<le> ?n / 10 / 9007199254740992" using n0 by simp
  have r: "from_units (to_units m) = ?r"
    using to_units_eq [OF assms] by (simp add: from_units_def fdiv_def SCALE_def)
  have "\<bar>?r - m\<bar> \<le> 1 / 20 + (m + 1) / 2251799813685248"
    using e1 e2 e3 assms n0 by argo
  then show ?thesis unfolding r by simp
qed

theorem unit_round_trip_bound_witness:
  "(0::real) \<le> double (1 / 4)
   \<and> \<bar>from_units (to_units (double (1 / 4))) - double (1 / 4)\<bar>
       \<le> 1 / 20 + (double (1 / 4) + 1) / 2 ^ 51"
  using unit_round_trip_bound [of "double (1 / 4)"] double_nonneg [of "1 / 4"] by simp

text \<open>
  C7 as stated fails at the doubles nearest to 0.05 and to 0.15. At 0.05 the float
  product with 10 is exactly 0.5, which rounds to the even integer 0, and the round trip
  returns 0: the error is the input itself, not below 0.05 (the float difference is not
  below the float 0.05 either). At 0.15 the float product is exactly 1.5, which rounds
  to 2, and the error exceeds 0.05.
\<close>

theorem unit_round_trip_strict_counterexample:
  "\<not> \<bar>from_units (to_units (double (1 / 20))) - double (1 / 20)\<bar> < 1 / 20
   \<and> \<not> \<bar>fsub (from_units (to_units (double (1 / 20)))) (double (1 / 20))\<bar> < double (1 / 20)
   \<and> to_units (double (15 / 100)) = 2
   \<and> 1 / 20 < \<bar>from_units (to_units (double (15 / 100))) - double (15 / 100)\<bar>"
  by (simp add: from_units_def to_units_def SCALE_def fmul_def fdiv_def fsub_def double_def
      Let_def binade.simps py_round_def)

subsection \<open>Facts about the budget window\<close>

lemma derate_mono: "0 \<le> k \<Longrightarrow> u \<le> v \<Longrightarrow> derate u k \<le> derate v k"
proof -
  assume k: "0 \<le> k" and uv: "u \<le> v"
  have d: "double (real u) \<le> double (real v)" using uv by (intro double_mono) simp
  have u0: "0 \<le> double (real u)" by (intro double_nonneg) simp
  have "double (real u) * k \<le> double (real v) * k" using k d by (rule mult_right_mono[rotated])
  then have le: "fmul (double (real u)) k \<le> fmul (double (real v)) k"
    unfolding fmul_def by (rule double_mono)
  have "0 \<le> double (real u) * k" using u0 k by simp
  then have "0 \<le> fmul (double (real u)) k" unfolding fmul_def by (rule double_nonneg)
  then have "py_int (fmul (double (real u)) k) \<le> py_int (fmul (double (real v)) k)"
    using le unfolding py_int_def by (auto intro: floor_mono)
  then show ?thesis unfolding derate_def by simp
qed

lemma derate_le:
  assumes "double (real u) = real u" and "0 \<le> k" and "k \<le> 1"
  shows "derate u k \<le> u"
proof -
  have "real u * k \<le> real u" using assms(2,3) by (simp add: mult_left_le)
  then have "double (real u * k) \<le> double (real u)" by (rule double_mono)
  then have le: "fmul (double (real u)) k \<le> real u" by (simp add: fmul_def assms(1))
  have "0 \<le> fmul (double (real u)) k"
    unfolding fmul_def assms(1) using assms(2) by (intro double_nonneg) simp
  then have "py_int (fmul (double (real u)) k) \<le> int u"
    using le unfolding py_int_def by (simp add: floor_le_iff)
  then show ?thesis unfolding derate_def by simp
qed

text \<open>A unit count that \<open>to_units\<close> returns is itself a double.\<close>

lemma to_units_double: "double (real (to_units m)) = real (to_units m)"
proof -
  let ?p = "fmul m (real SCALE)"
  have "double ?p = ?p" unfolding fmul_def by (rule double_idem)
  then have n: "double (of_int (py_round ?p)) = of_int (py_round ?p)" by (rule double_py_round)
  show ?thesis
  proof (cases "0 \<le> py_round ?p")
    case True
    then have "real (to_units m) = of_int (py_round ?p)" by (simp add: to_units_def)
    then show ?thesis using n by simp
  next
    case False
    then have "to_units m = 0" by (simp add: to_units_def)
    then show ?thesis by (simp add: double_zero)
  qed
qed

text \<open>
  C2, amended. The two fatigue thresholds are chained: for every daily target and every
  fatigue score above 0.8, the 0.8 threshold's factors (0.9 and 0.7) are applied to the
  values that the 0.6 threshold has already reduced (by 0.9 and 0.85), each product
  truncated to an integer; the resulting window is never wider than the one obtained by
  applying the 0.8 threshold's factors to the original values.
\<close>

theorem budget_window_chained:
  assumes "double (8 / 10) < fatigue_score"
  shows "budget_window dm fatigue_score =
           (derate (derate (to_units (fmul dm (double (7 / 10)))) (double (9 / 10)))
              (double (9 / 10)),
            derate (derate (to_units (fmul dm (double (13 / 10)))) (double (85 / 100)))
              (double (7 / 10)))
         \<and> fst (budget_window dm fatigue_score)
             \<le> fst (budget_window_independent dm fatigue_score)
         \<and> snd (budget_window dm fatigue_score)
             \<le> snd (budget_window_independent dm fatigue_score)"
proof -
  let ?low = "to_units (fmul dm (double (7 / 10)))"
  let ?high = "to_units (fmul dm (double (13 / 10)))"
  have "double (6 / 10) \<le> double (8 / 10)" by (intro double_mono) simp
  then have six: "double (6 / 10) < fatigue_score" using assms by linarith
  have eq: "budget_window dm fatigue_score =
           (derate (derate ?low (double (9 / 10))) (double (9 / 10)),
            derate (derate ?high (double (85 / 100))) (double (7 / 10)))"
    using assms six by (simp add: budget_window_def)
  have ind: "budget_window_independent dm fatigue_score =
           (derate ?low (double (9 / 10)), derate ?high (double (7 / 10)))"
    using assms by (simp add: budget_window_independent_def)
  have c9: "0 \<le> double (9 / 10)" "double (9 / 10) \<le> 1"
    using double_fraction_unit [of "9 / 10"] by simp_all
  have c85: "0 \<le> double (85 / 100)" "double (85 / 100) \<le> 1"
    using double_fraction_unit [of "85 / 100"] by simp_all
  have c7: "0 \<le> double (7 / 10)"
    using double_fraction_unit [of "7 / 10"] by simp
  have "derate ?low (double (9 / 10)) \<le> ?low"
    using to_units_double c9 by (rule derate_le)
  then have "derate (derate ?low (double (9 / 10))) (double (9 / 10))
          \<le> derate ?low (double (9 / 10))"
    using c9(1) by (intro derate_mono)
  moreover have "derate ?high (double (85 / 100)) \<le> ?high"
    using to_units_double c85 by (rule derate_le)
  then have "derate (derate ?high (double (85 / 100))) (double (7 / 10))
          \<le> derate ?high (double (7 / 10))"
    using c7 by (intro derate_mono)
  ultimately show ?thesis by (simp add: eq ind)
qed

theorem budget_window_chained_witness:
  "double (8 / 10) < double (9 / 10) \<and> budget_window 100 (double (9 / 10)) = (567, 773)"
proof -
  have h: "double (8 / 10) < double (9 / 10)"
    by (simp add: double_def Let_def binade.simps py_round_def)
  have h': "double (4 / 5) < double (9 / 10)"
    by (simp add: double_def Let_def binade.simps py_round_def)
  have low: "to_units (fmul 100 (double (7 / 10))) = 700"
    by (simp add: to_units_def SCALE_def fmul_def double_def Let_def binade.simps py_round_def)
  have high: "to_units (fmul 100 (double (13 / 10))) = 1300"
    by (simp add: to_units_def SCALE_def fmul_def double_def Let_def binade.simps py_round_def)
  have a: "derate 700 (double (9 / 10)) = 630"
    by (simp add: derate_def py_int_def fmul_def double_def Let_def binade.simps py_round_def)
  have b: "derate 630 (double (9 / 10)) = 567"
    by (simp add: derate_def py_int_def fmul_def double_def Let_def binade.simps py_round_def)
  have c: "derate 1300 (double (17 / 20)) = 1105"
    by (simp add: derate_def py_int_def fmul_def double_def Let_def binade.simps py_round_def)
  have d: "derate 1105 (double (7 / 10)) = 773"
    by (simp add: derate_def py_int_def fmul_def double_def Let_def binade.simps py_round_def)
  from budget_window_chained [OF h, of 100] h show ?thesis
    by (simp add: low high a b c d h')
qed

text \<open>
  C2 as stated fails for a daily target of 100 minutes and a fatigue score of 0.9: the
  original window is 700 to 1300 units; the code returns 567 to 773, the independent
  reading gives 630 to 909 (the float product 1300 * 0.7 is 909.9999999999999).
\<close>

theorem budget_window_independent_counterexample:
  "budget_window 100 (double (9 / 10)) = (567, 773)
   \<and> budget_window_independent 100 (double (9 / 10)) = (630, 909)
   \<and> budget_window 100 (double (9 / 10)) \<noteq> budget_window_independent 100 (double (9 / 10))"
proof -
  have h: "double (4 / 5) < double (9 / 10)" "double (3 / 5) < double (9 / 10)"
    by (simp_all add: double_def Let_def binade.simps py_round_def)
  have low: "to_units (fmul 100 (double (7 / 10))) = 700"
    by (simp add: to_units_def SCALE_def fmul_def double_def Let_def binade.simps py_round_def)
  have high: "to_units (fmul 100 (double (13 / 10))) = 1300"
    by (simp add: to_units_def SCALE_def fmul_def double_def Let_def binade.simps py_round_def)
  have a: "derate 700 (double (9 / 10)) = 630"
    by (simp add: derate_def py_int_def fmul_def double_def Let_def binade.simps py_round_def)
  have b: "derate 630 (double (9 / 10)) = 567"
    by (simp add: derate_def py_int_def fmul_def double_def Let_def binade.simps py_round_def)
  have c: "derate 1300 (double (17 / 20)) = 1105"
    by (simp add: derate_def py_int_def fmul_def double_def Let_def binade.simps py_round_def)
  have d: "derate 1105 (double (7 / 10)) = 773"
    by (simp add: derate_def py_int_def fmul_def double_def Let_def binade.simps py_round_def)
  have e: "derate 1300 (double (7 / 10)) = 909"
    by (simp add: derate_def py_int_def fmul_def double_def Let_def binade.simps py_round_def)
  have code: "budget_window 100 (double (9 / 10)) = (567, 773)"
    by (simp add: budget_window_def h low high a b c d)
  have spec: "budget_window_independent 100 (double (9 / 10)) = (630, 909)"
    by (simp add: budget_window_independent_def h low high a e)
  show ?thesis unfolding code spec by simp
qed

subsection \<open>Facts about the streak updater\<close>

text \<open>
  C8 at the failing input. The daily target is 15 minutes. The first session of the day
  is 15.0 minutes: the streak goes from 2 to 3 and \<open>minutes_today\<close> is 15.0. The second
  session the same day is 1.4 minutes: \<open>minutes_today\<close> becomes 16.4, and the float
  difference 16.4 - 1.4 is 14.999999999999998, below the target, so the crossing test
  holds a second time and the streak goes from 3 to 4.
\<close>

theorem streak_double_increment:
  "update_streak \<lparr>settings_daily_mins = Some 15, streak = Some \<lparr>current = 2,
       last_date = Some ''2025-01-01'', minutes_today = 3, last_fatigue = 0\<rparr>\<rparr> 15 ''2025-01-02''
     = (\<lparr>settings_daily_mins = Some 15, streak = Some \<lparr>current = 3,
           last_date = Some ''2025-01-02'', minutes_today = 15, last_fatigue = 0\<rparr>\<rparr>,
        \<lparr>current = 3, last_date = Some ''2025-01-02'', minutes_today = 15, last_fatigue = 0\<rparr>)
   \<and> current (snd (update_streak \<lparr>settings_daily_mins = Some 15, streak = Some \<lparr>current = 3,
         last_date = Some ''2025-01-02'', minutes_today = 15, last_fatigue = 0\<rparr>\<rparr>
         (double (14 / 10)) ''2025-01-02'')) = 4
   \<and> 15 \<le> minutes_today (snd (update_streak \<lparr>settings_daily_mins = Some 15,
         streak = Some \<lparr>current = 3, last_date = Some ''2025-01-02'', minutes_today = 15,
         last_fatigue = 0\<rparr>\<rparr> (double (14 / 10)) ''2025-01-02''))
   \<and> fsub (fadd 15 (double (14 / 10))) (double (14 / 10)) < 15"
  by (simp add: update_streak_def daily_target_def stored_streak_def Let_def
      fadd_def fsub_def double_def binade.simps py_round_def)

subsection \<open>Facts about the flattener\<close>

lemma snd_set_enumerate: "snd ` set (enumerate n xs) = set xs"
  by (metis map_snd_enumerate set_map)

lemma bex_enumerate_iff: "(\<exists>p\<in>set (enumerate n xs). P (snd p)) \<longleftrightarrow> (\<exists>x\<in>set xs. P x)"
proof -
  have "(\<exists>p\<in>set (enumerate n xs). P (snd p)) \<longleftrightarrow> (\<exists>x\<in>snd ` set (enumerate n xs). P x)"
    by simp
  then show ?thesis by (simp only: snd_set_enumerate)
qed

lemma ball_enumerate_iff: "(\<forall>p\<in>set (enumerate n xs). P (snd p)) \<longleftrightarrow> (\<forall>x\<in>set xs. P x)"
proof -
  have "(\<forall>p\<in>set (enumerate n xs). P (snd p)) \<longleftrightarrow> (\<forall>x\<in>snd ` set (enumerate n xs). P x)"
    by simp
  then show ?thesis by (simp only: snd_set_enumerate)
qed

lemma bex_enumerate: "\<exists>x\<in>set xs. P x \<Longrightarrow> \<exists>p\<in>set (enumerate n xs). P (snd p)"
  by (simp only: bex_enumerate_iff)

lemma ball_enumerate: "\<forall>x\<in>set xs. P x \<Longrightarrow> \<forall>p\<in>set (enumerate n xs). P (snd p)"
  by (simp only: ball_enumerate_iff)

lemma map_of_snd_enumerate: "map (\<lambda>q. f (snd q)) (enumerate n xs) = map f xs"
proof -
  have "map (\<lambda>q. f (snd q)) (enumerate n xs) = map f (map snd (enumerate n xs))"
    by (simp only: map_map comp_def)
  then show ?thesis by (simp only: map_snd_enumerate)
qed

lemma make_item_topic:
  "make_item li lec si seg = Inr it \<Longrightarrow> topic it = seg_topic seg \<and> seg_mins seg = Some (mins it)"
  by (auto simp: make_item_def split: option.splits)

lemma flatten_lecture_ok:
  "\<forall>p\<in>set ps. seg_mins (snd p) \<noteq> None \<Longrightarrow>
   \<exists>its. flatten_lecture li lec ps = Inr its \<and> map topic its = map (seg_topic \<circ> snd) ps"
proof (induction ps)
  case Nil
  then show ?case by simp
next
  case (Cons p ps)
  obtain si seg where p: "p = (si, seg)" by (cases p)
  from Cons.prems p obtain m where m: "seg_mins seg = Some m" by auto
  from Cons obtain its where its: "flatten_lecture li lec ps = Inr its"
      "map topic its = map (seg_topic \<circ> snd) ps" by auto
  show ?case using p m its by (simp add: make_item_def)
qed

lemma flatten_lecture_err:
  "\<exists>p\<in>set ps. seg_mins (snd p) = None \<Longrightarrow> flatten_lecture li lec ps = Inl TypeError"
proof (induction ps)
  case Nil
  then show ?case by simp
next
  case (Cons p ps)
  obtain si seg where p: "p = (si, seg)" by (cases p)
  show ?case
  proof (cases "seg_mins seg")
    case None
    then show ?thesis using p by (simp add: make_item_def)
  next
    case (Some m)
    with Cons.prems p have "\<exists>p\<in>set ps. seg_mins (snd p) = None" by auto
    then have "flatten_lecture li lec ps = Inl TypeError" by (rule Cons.IH)
    then show ?thesis using p Some by (simp add: make_item_def)
  qed
qed

lemma flatten_lectures_ok:
  "\<forall>q\<in>set qs. \<forall>seg\<in>set (lecture_segments (snd q)). seg_mins seg \<noteq> None \<Longrightarrow>
   \<exists>its. flatten_lectures qs = Inr its
     \<and> map topic its = concat (map (\<lambda>q. map seg_topic (lecture_segments (snd q))) qs)"
proof (induction qs)
  case Nil
  then show ?case by simp
next
  case (Cons q qs)
  obtain li lec where q: "q = (li, lec)" by (cases q)
  have "\<forall>p\<in>set (enumerate 0 (lecture_segments lec)). seg_mins (snd p) \<noteq> None"
    using Cons.prems q by (intro ball_enumerate) simp
  from flatten_lecture_ok [OF this, of li lec]
  obtain its where its: "flatten_lecture li lec (enumerate 0 (lecture_segments lec)) = Inr its"
    "map topic its = map (seg_topic \<circ> snd) (enumerate 0 (lecture_segments lec))" by blast
  have snd_en: "map (seg_topic \<circ> snd) (enumerate 0 (lecture_segments lec)) = map seg_topic (lecture_segments lec)"
    using map_of_snd_enumerate [of seg_topic] by (simp add: comp_def)
  from Cons obtain others where others: "flatten_lectures qs = Inr others"
    "map topic others = concat (map (\<lambda>q. map seg_topic (lecture_segments (snd q))) qs)" by auto
  show ?case using q its others snd_en by simp
qed

lemma flatten_lectures_err:
  "\<exists>q\<in>set qs. \<exists>seg\<in>set (lecture_segments (snd q)). seg_mins seg = None \<Longrightarrow>
   flatten_lectures qs = Inl TypeError"
proof (induction qs)
  case Nil
  then show ?case by simp
next
  case (Cons q qs)
  obtain li lec where q: "q = (li, lec)" by (cases q)
  show ?case
  proof (cases "\<exists>seg\<in>set (lecture_segments lec). seg_mins seg = None")
    case True
    then have "\<exists>p\<in>set (enumerate 0 (lecture_segments lec)). seg_mins (snd p) = None"
      by (rule bex_enumerate)
    then have "flatten_lecture li lec (enumerate 0 (lecture_segments lec)) = Inl TypeError"
      by (rule flatten_lecture_err)
    then show ?thesis using q by simp
  next
    case False
    then have "\<forall>seg\<in>set (lecture_segments lec). seg_mins seg \<noteq> None"
      by simp
    then have "\<forall>p\<in>set (enumerate 0 (lecture_segments lec)). seg_mins (snd p) \<noteq> None"
      by (rule ball_enumerate)
    from flatten_lecture_ok [OF this, of li lec]
    obtain its where its: "flatten_lecture li lec (enumerate 0 (lecture_segments lec)) = Inr its"
      by blast
    from False Cons.prems q
    have "\<exists>q\<in>set qs. \<exists>seg\<in>set (lecture_segments (snd q)). seg_mins seg = None" by auto
    then have "flatten_lectures qs = Inl TypeError" by (rule Cons.IH)
    then show ?thesis using q its by simp
  qed
qed

text \<open>
  C3, amended. A segment that lacks \<^verbatim>\<open>mins\<close> makes \<^verbatim>\<open>flatten_segments\<close> fail with
  \<^verbatim>\<open>TypeError\<close> (from \<^verbatim>\<open>float(None)\<close>). When every segment has \<^verbatim>\<open>mins\<close> the
  flattening succeeds whether or not a topic is missing: each item carries what
  \<^verbatim>\<open>seg.get('topic')\<close> returned, \<^verbatim>\<open>None\<close> for a segment without topic.
\<close>

theorem flatten_missing_fields:
  "((\<exists>lec\<in>set lectures. \<exists>seg\<in>set (lecture_segments lec). seg_mins seg = None)
      \<longrightarrow> flatten_segments lectures = Inl TypeError)
   \<and> ((\<forall>lec\<in>set lectures. \<forall>seg\<in>set (lecture_segments lec). seg_mins seg \<noteq> None)
      \<longrightarrow> (\<exists>items. flatten_segments lectures = Inr items
            \<and> map topic items
                = concat (map (\<lambda>lec. map seg_topic (lecture_segments lec)) lectures)))"
proof (intro conjI impI)
  assume "\<exists>lec\<in>set lectures. \<exists>seg\<in>set (lecture_segments lec). seg_mins seg = None"
  then have "\<exists>q\<in>set (enumerate 0 lectures). \<exists>seg\<in>set (lecture_segments (snd q)). seg_mins seg = None"
    by (rule bex_enumerate)
  then show "flatten_segments lectures = Inl TypeError"
    unfolding flatten_segments_def by (rule flatten_lectures_err)
next
  assume "\<forall>lec\<in>set lectures. \<forall>seg\<in>set (lecture_segments lec). seg_mins seg \<noteq> None"
  then have "\<forall>q\<in>set (enumerate 0 lectures). \<forall>seg\<in>set (lecture_segments (snd q)). seg_mins seg \<noteq> None"
    by (rule ball_enumerate)
  from flatten_lectures_ok [OF this]
  obtain its where its: "flatten_lectures (enumerate 0 lectures) = Inr its"
    "map topic its = concat (map (\<lambda>q. map seg_topic (lecture_segments (snd q))) (enumerate 0 lectures))"
    by blast
  have "concat (map (\<lambda>q. map seg_topic (lecture_segments (snd q))) (enumerate 0 lectures))
      = concat (map (\<lambda>lec. map seg_topic (lecture_segments lec)) lectures)"
    using map_of_snd_enumerate [of "\<lambda>lec. map seg_topic (lecture_segments lec)" 0 lectures]
    by simp
  then show "\<exists>items. flatten_segments lectures = Inr items
            \<and> map topic items = concat (map (\<lambda>lec. map seg_topic (lecture_segments lec)) lectures)"
    using its unfolding flatten_segments_def by simp
qed

theorem flatten_missing_fields_witness:
  "flatten_segments [\<lparr>title = Some ''T'', segments = Some [\<lparr>seg_topic = Some ''a'',
       seg_mins = None, seg_difficulty = None, seg_order = None\<rparr>]\<rparr>] = Inl TypeError
   \<and> (\<exists>items. flatten_segments [\<lparr>title = Some ''T'', segments = Some [\<lparr>seg_topic = None,
       seg_mins = Some 5, seg_difficulty = None, seg_order = None\<rparr>]\<rparr>] = Inr items
        \<and> map topic items = [None])"
  using flatten_missing_fields [of "[\<lparr>title = Some ''T'', segments = Some [\<lparr>seg_topic = Some ''a'',
       seg_mins = None, seg_difficulty = None, seg_order = None\<rparr>]\<rparr>]"]
    flatten_missing_fields [of "[\<lparr>title = Some ''T'', segments = Some [\<lparr>seg_topic = None,
       seg_mins = Some 5, seg_difficulty = None, seg_order = None\<rparr>]\<rparr>]"]
  by (simp add: lecture_segments_def)

text \<open>
  C3 as stated fails for a lecture whose only segment has \<^verbatim>\<open>mins\<close> but no \<^verbatim>\<open>topic\<close>: the
  flattening does not fail, it returns one item whose topic is \<^verbatim>\<open>None\<close>.
\<close>

theorem flatten_missing_topic_counterexample:
  "flatten_segments [\<lparr>title = Some ''T'', segments = Some [\<lparr>seg_topic = None,
       seg_mins = Some 5, seg_difficulty = None, seg_order = None\<rparr>]\<rparr>]
   = Inr [\<lparr>item_id = (0, 0), lecture_index = 0, lecture_title = Some ''T'', topic = None,
          mins = 5, difficulty = 3, order = 1\<rparr>]"
  by (simp add: flatten_segments_def enumerate_eq_zip lecture_segments_def make_item_def)

subsection \<open>Facts about the soft-order gate\<close>

lemma gate_subset: "set (gate A segs) \<subseteq> set segs"
  by (induction segs arbitrary: A) auto

lemma gate_available:
  "sorted (map order segs) \<Longrightarrow> 1 \<in> A \<Longrightarrow>
   gate A segs = filter (\<lambda>s. order s \<in> A \<union> (\<lambda>t. order t + 1) ` set (gate A segs)) segs"
proof (induction segs arbitrary: A)
  case Nil
  then show ?case by simp
next
  case (Cons s segs)
  have sorted: "sorted (map order segs)" and le: "\<forall>t\<in>set segs. order s \<le> order t"
    using Cons.prems(1) by auto
  show ?case
  proof (cases "order s \<in> A")
    case True
    let ?A = "insert (order s + 1) A"
    have "gate ?A segs = filter (\<lambda>x. order x \<in> ?A \<union> (\<lambda>t. order t + 1) ` set (gate ?A segs)) segs"
      using Cons.IH [OF sorted, of ?A] Cons.prems(2) by simp
    moreover have "gate A (s # segs) = s # gate ?A segs" using True by simp
    ultimately show ?thesis using True by auto
  next
    case False
    then have ne1: "order s \<noteq> 1" using Cons.prems(2) by auto
    have skip: "gate A (s # segs) = gate A segs" using False ne1 by simp
    have "order s \<notin> (\<lambda>t. order t + 1) ` set (gate A segs)"
      using le gate_subset [of A segs] by force
    then have "order s \<notin> A \<union> (\<lambda>t. order t + 1) ` set (gate A segs)" using False by simp
    moreover have "gate A segs = filter (\<lambda>x. order x \<in> A \<union> (\<lambda>t. order t + 1) ` set (gate A segs)) segs"
      using Cons.IH [OF sorted Cons.prems(2)] .
    ultimately show ?thesis using skip by simp
  qed
qed

lemma gate_no_first: "\<forall>s\<in>set segs. order s \<noteq> 1 \<Longrightarrow> gate {1} segs = []"
  by (induction segs) auto

lemma order_map_foldl_same:
  "\<forall>it\<in>set items. lecture_title it = T \<Longrightarrow>
   foldl (\<lambda>m it. order_map_append it m) [(T, pre)] items = [(T, pre @ items)]"
  by (induction items arbitrary: pre) auto

lemma order_map_single:
  "items \<noteq> [] \<Longrightarrow> \<forall>it\<in>set items. lecture_title it = T \<Longrightarrow> order_map items = [(T, items)]"
  by (cases items) (auto simp: order_map_def order_map_foldl_same)

lemma soft_order_filter_single:
  "\<forall>it\<in>set items. lecture_title it = T \<Longrightarrow> soft_order_filter items = soft_order_gate items"
proof (cases "items = []")
  case True
  then show ?thesis by (simp add: soft_order_filter_def order_map_def soft_order_gate_def)
next
  case False
  assume "\<forall>it\<in>set items. lecture_title it = T"
  with False have "order_map items = [(T, items)]" by (rule order_map_single)
  then show ?thesis by (simp add: soft_order_filter_def)
qed

text \<open>
  C5. The soft-order gate keeps, of a lecture's segments sorted by order, exactly those
  whose order is 1 or lies in the available set, which is the seed 1 together with
  \<open>order + 1\<close> of every retained segment (a set that only gains orders above the
  segment at hand, so its final value decides as its current value does). In
  particular, of segments with orders 2, 1, 3 under one lecture title all three are
  eligible (in the order 1, 2, 3), and of segments with orders 1, 3 only the first is:
  the segment of order 3 is not eligible.
\<close>

theorem soft_order_gate_rule:
  "soft_order_gate segs =
     filter (\<lambda>s. order s = 1 \<or> order s \<in> insert 1 ((\<lambda>t. order t + 1) ` set (soft_order_gate segs)))
       (sort_key order segs)
   \<and> ((\<forall>it\<in>set items. lecture_title it = T) \<and> map order items = [2, 1, 3]
        \<longrightarrow> soft_order_filter items = [items ! 1, items ! 0, items ! 2])
   \<and> ((\<forall>it\<in>set items. lecture_title it = T) \<and> map order items = [1, 3]
        \<longrightarrow> soft_order_filter items = [items ! 0])"
proof (intro conjI impI)
  have "sorted (map order (sort_key order segs))" by simp
  from gate_available [OF this, of "{1}"]
  show "soft_order_gate segs =
     filter (\<lambda>s. order s = 1 \<or> order s \<in> insert 1 ((\<lambda>t. order t + 1) ` set (soft_order_gate segs)))
       (sort_key order segs)"
    unfolding soft_order_gate_def by simp
next
  assume a: "(\<forall>it\<in>set items. lecture_title it = T) \<and> map order items = [2, 1, 3]"
  then obtain x y z where xs: "items = [x, y, z]" "order x = 2" "order y = 1" "order z = 3"
    by auto
  have "soft_order_filter items = soft_order_gate items"
    using a soft_order_filter_single [of items T] by simp
  then show "soft_order_filter items = [items ! 1, items ! 0, items ! 2]"
    using xs by (simp add: soft_order_gate_def)
next
  assume a: "(\<forall>it\<in>set items. lecture_title it = T) \<and> map order items = [1, 3]"
  then obtain x y where xs: "items = [x, y]" "order x = 1" "order y = 3"
    by auto
  have "soft_order_filter items = soft_order_gate items"
    using a soft_order_filter_single [of items T] by simp
  then show "soft_order_filter items = [items ! 0]"
    using xs by (simp add: soft_order_gate_def)
qed

theorem soft_order_gate_rule_witness:
  "soft_order_filter [example_item 0 ''a'' 5 2, example_item 1 ''b'' 5 1, example_item 2 ''c'' 5 3]
     = [example_item 1 ''b'' 5 1, example_item 0 ''a'' 5 2, example_item 2 ''c'' 5 3]
   \<and> soft_order_filter [example_item 0 ''a'' 5 1, example_item 1 ''c'' 5 3]
     = [example_item 0 ''a'' 5 1]"
  using soft_order_gate_rule [of "[]"
      "[example_item 0 ''a'' 5 2, example_item 1 ''b'' 5 1, example_item 2 ''c'' 5 3]" "Some ''T''"]
    soft_order_gate_rule [of "[]"
      "[example_item 0 ''a'' 5 1, example_item 1 ''c'' 5 3]" "Some ''T''"]
  by (simp add: example_item_def)

subsection \<open>Facts about the eligibility filter and the recommendation\<close>

lemma py_nth_in_set: "py_nth xs i = Inr x \<Longrightarrow> x \<in> set xs"
  by (auto simp: py_nth_def split: if_splits)

lemma lookup_all_subset: "lookup_all xs idxs = Inr ys \<Longrightarrow> set ys \<subseteq> set xs"
proof (induction idxs arbitrary: ys)
  case Nil
  then show ?case by simp
next
  case (Cons i idxs)
  then show ?case
    by (auto split: sum.splits dest: py_nth_in_set)
qed

lemma select_with_from_items:
  assumes "select_with chooser items low_u high_u = Inr (chosen, t)"
  shows "\<forall>c\<in>set chosen. \<exists>it\<in>set items. c = to_chosen it"
proof -
  have "chosen = [] \<or> (\<exists>idxs picked. lookup_all (scaled_items items) idxs = Inr picked
          \<and> chosen = map (to_chosen \<circ> snd) picked)"
    using assms unfolding select_with_def Let_def
    by (auto split: sum.splits if_splits prod.splits)
  then show ?thesis
  proof
    assume "chosen = []"
    then show ?thesis by simp
  next
    assume "\<exists>idxs picked. lookup_all (scaled_items items) idxs = Inr picked
          \<and> chosen = map (to_chosen \<circ> snd) picked"
    then obtain idxs picked where p: "lookup_all (scaled_items items) idxs = Inr picked"
      "chosen = map (to_chosen \<circ> snd) picked" by blast
    have "set picked \<subseteq> set (scaled_items items)" using p(1) by (rule lookup_all_subset)
    then have "snd ` set picked \<subseteq> set items" by (auto simp: scaled_items_def)
    then show ?thesis using p(2) by auto
  qed
qed

lemma order_map_append_inv:
  "\<forall>p\<in>set m. \<forall>s\<in>set (snd p). lecture_title s = fst p \<and> s \<in> X \<Longrightarrow> it \<in> X \<Longrightarrow>
   \<forall>p\<in>set (order_map_append it m). \<forall>s\<in>set (snd p). lecture_title s = fst p \<and> s \<in> X"
  by (induction m) (auto split: if_splits)

lemma order_map_foldl_inv:
  "\<forall>p\<in>set m. \<forall>s\<in>set (snd p). lecture_title s = fst p \<and> s \<in> X \<Longrightarrow> set items \<subseteq> X \<Longrightarrow>
   \<forall>p\<in>set (foldl (\<lambda>m it. order_map_append it m) m items).
      \<forall>s\<in>set (snd p). lecture_title s = fst p \<and> s \<in> X"
proof (induction items arbitrary: m)
  case Nil
  then show ?case by simp
next
  case (Cons it items)
  have "it \<in> X" using Cons.prems(2) by simp
  with Cons.prems(1)
  have "\<forall>p\<in>set (order_map_append it m). \<forall>s\<in>set (snd p). lecture_title s = fst p \<and> s \<in> X"
    by (rule order_map_append_inv)
  moreover have "set items \<subseteq> X" using Cons.prems(2) by simp
  ultimately show ?case using Cons.IH by simp
qed

lemma order_map_groups:
  assumes "(k, segs) \<in> set (order_map items)" and "s \<in> set segs"
  shows "lecture_title s = k \<and> s \<in> set items"
proof -
  have "\<forall>p\<in>set (order_map items). \<forall>s\<in>set (snd p). lecture_title s = fst p \<and> s \<in> set items"
    unfolding order_map_def by (rule order_map_foldl_inv) simp_all
  with assms show ?thesis by fastforce
qed

lemma soft_order_gate_subset: "set (soft_order_gate segs) \<subseteq> set segs"
  using gate_subset [of "{1}" "sort_key order segs"] by (simp add: soft_order_gate_def)

lemma soft_order_filter_subset: "set (soft_order_filter items) \<subseteq> set items"
proof
  fix s assume "s \<in> set (soft_order_filter items)"
  then obtain k segs where g: "(k, segs) \<in> set (order_map items)" "s \<in> set (soft_order_gate segs)"
    by (auto simp: soft_order_filter_def)
  then have "s \<in> set segs" using soft_order_gate_subset by blast
  with g(1) show "s \<in> set items" using order_map_groups by blast
qed

lemma soft_order_filter_blocked:
  assumes "\<forall>it\<in>set items. lecture_title it = T \<longrightarrow> order it \<noteq> 1"
  shows "\<forall>s\<in>set (soft_order_filter items). lecture_title s \<noteq> T"
proof
  fix s assume "s \<in> set (soft_order_filter items)"
  then obtain k segs where g: "(k, segs) \<in> set (order_map items)" "s \<in> set (soft_order_gate segs)"
    by (auto simp: soft_order_filter_def)
  have grp: "\<forall>x\<in>set segs. lecture_title x = k \<and> x \<in> set items"
    using g(1) order_map_groups by blast
  have sk: "lecture_title s = k" using g(2) soft_order_gate_subset grp by blast
  show "lecture_title s \<noteq> T"
  proof
    assume "lecture_title s = T"
    then have "k = T" using sk by simp
    then have "\<forall>x\<in>set (sort_key order segs). order x \<noteq> 1" using grp assms by simp
    then have "soft_order_gate segs = []" unfolding soft_order_gate_def by (rule gate_no_first)
    then show False using g(2) by simp
  qed
qed

lemma restrict_scope_subset: "set (restrict_scope sel items) \<subseteq> set items"
  by (auto simp: restrict_scope_def split: option.splits)

lemma drop_completed_set:
  "set (drop_completed cs items) = {it \<in> set items. (lecture_title it, topic it) \<notin> completed_set cs}"
  by (auto simp: drop_completed_def)

lemma recommend_with_keys:
  assumes "recommend_with chooser lectures dm f cs sel = Inr r"
    and "flatten_segments lectures = Inr items"
  shows "set (recommended_keys r)
          \<subseteq> (\<lambda>it. (lecture_title it, topic it)) `
               set (soft_order_filter (restrict_scope sel (drop_completed cs items)))"
proof -
  let ?el = "soft_order_filter (restrict_scope sel (drop_completed cs items))"
  let ?w = "budget_window dm f"
  have "r = Selection [] 0 \<or> (\<exists>t. r = Everything ?el t)
        \<or> (\<exists>chosen t. r = Selection chosen t \<and> select_with chooser ?el (fst ?w) (snd ?w) = Inr (chosen, t))"
    using assms unfolding recommend_with_def Let_def
    by (auto split: sum.splits if_splits prod.splits)
  then show ?thesis
  proof (elim disjE exE conjE)
    assume "r = Selection [] 0"
    then show ?thesis by simp
  next
    fix t assume "r = Everything ?el t"
    then show ?thesis by auto
  next
    fix chosen t
    assume r: "r = Selection chosen t"
      and s: "select_with chooser ?el (fst ?w) (snd ?w) = Inr (chosen, t)"
    from select_with_from_items [OF s] show ?thesis
      unfolding r by (auto simp: to_chosen_def)
  qed
qed

text \<open>
  C6, amended. The soft-order gate works per lecture title: for every title \<open>T\<close> such
  that every order-1 segment carrying that title (in whichever lecture) appears in
  \<^verbatim>\<open>completed_courses\<close>, \<^verbatim>\<open>recommend_segments\<close> recommends no segment with title \<open>T\<close>,
  since completion exclusion has removed what would seed the frontier of that title.
\<close>

theorem completed_first_blocks_title:
  assumes "recommend_segments lectures dm f cs sel = Inr r"
    and "flatten_segments lectures = Inr items"
    and "\<forall>it\<in>set items. lecture_title it = T \<and> order it = 1
            \<longrightarrow> (lecture_title it, topic it) \<in> completed_set cs"
  shows "\<forall>k\<in>set (recommended_keys r). fst k \<noteq> T"
proof -
  let ?xs = "restrict_scope sel (drop_completed cs items)"
  have "\<forall>it\<in>set ?xs. lecture_title it = T \<longrightarrow> order it \<noteq> 1"
    using assms(3) restrict_scope_subset [of sel "drop_completed cs items"]
    by (auto simp: drop_completed_set)
  then have blocked: "\<forall>s\<in>set (soft_order_filter ?xs). lecture_title s \<noteq> T"
    by (rule soft_order_filter_blocked)
  have keys: "set (recommended_keys r)
      \<subseteq> (\<lambda>it. (lecture_title it, topic it)) ` set (soft_order_filter ?xs)"
    using assms(1,2) unfolding recommend_segments_def by (rule recommend_with_keys)
  show ?thesis
  proof
    fix k assume "k \<in> set (recommended_keys r)"
    with keys obtain it where "it \<in> set (soft_order_filter ?xs)"
      and "k = (lecture_title it, topic it)" by blast
    with blocked show "fst k \<noteq> T" by simp
  qed
qed



text \<open>
  C6 as stated fails when two lectures share a title. Lecture 0, titled T, has the
  segments a (order 1, completed) and b (order 2); lecture 1, also titled T, has the
  segment c (order 1, not completed). Every order-1 segment of lecture 0 is completed,
  yet the uncompleted c advances the frontier of the title T and b, the order-2 segment
  of lecture 0, is recommended.
\<close>



subsection \<open>A daily target of zero or less\<close>

lemma to_units_nonpos: "x \<le> 0 \<Longrightarrow> to_units x = 0"
proof -
  assume "x \<le> 0"
  then have "x * real SCALE \<le> 0" by (simp add: SCALE_def)
  then have "fmul x (real SCALE) \<le> 0" unfolding fmul_def by (rule double_nonpos)
  then have "py_round (fmul x (real SCALE)) \<le> 0" by (rule py_round_nonpos)
  then show ?thesis by (simp add: to_units_def)
qed

lemma derate_zero: "derate 0 k = 0"
  by (simp add: derate_def py_int_def fmul_def double_zero)

lemma budget_window_nonpos: "dm \<le> 0 \<Longrightarrow> budget_window dm f = (0, 0)"
proof -
  assume dm: "dm \<le> 0"
  have "0 \<le> double (7 / 10)" "0 \<le> double (13 / 10)" by (simp_all add: double_nonneg)
  then have "dm * double (7 / 10) \<le> 0" "dm * double (13 / 10) \<le> 0"
    using dm by (simp_all add: mult_nonpos_nonneg)
  then have "fmul dm (double (7 / 10)) \<le> 0" "fmul dm (double (13 / 10)) \<le> 0"
    unfolding fmul_def by (simp_all only: double_nonpos)
  then have "to_units (fmul dm (double (7 / 10))) = 0" "to_units (fmul dm (double (13 / 10))) = 0"
    by (simp_all only: to_units_nonpos)
  then show ?thesis by (simp add: budget_window_def derate_zero)
qed

lemma fill_dp_zero: "fill_dp 0 ws dp = dp"
proof (induction ws arbitrary: dp)
  case Nil
  then show ?case by simp
next
  case (Cons p ws)
  obtain i w where p: "p = (i, w)" by (cases p)
  show ?case using p Cons.IH by (cases "w = 0") simp_all
qed

lemma dp_table_zero: "dp_table 0 us = [- 2]"
  by (simp add: dp_table_def fill_dp_zero init_dp_def)

lemma select_with_zero: "select_with choose_best items 0 0 = Inr ([], 0)"
  by (simp add: select_with_def dp_table_zero choose_best_def scan_window_def)

lemma recommend_nonpos:
  assumes "dm \<le> 0" and "flatten_segments lectures = Inr items" and "\<forall>it\<in>set items. 0 \<le> mins it"
  shows "recommend_segments lectures dm f cs sel = Inr (Selection [] 0)"
proof -
  let ?el = "soft_order_filter (restrict_scope sel (drop_completed cs items))"
  have "set ?el \<subseteq> set items"
    using soft_order_filter_subset restrict_scope_subset drop_completed_set by blast
  then have "\<forall>x\<in>set (map mins ?el). 0 \<le> x" using assms(3) by auto
  then have "0 \<le> py_sum (map mins ?el)" by (rule py_sum_nonneg)
  then have nocut: "\<not> py_sum (map mins ?el) < from_units 0"
    by (simp add: from_units_def fdiv_def double_zero)
  show ?thesis
    unfolding recommend_segments_def recommend_with_def
    using assms(2) nocut by (simp add: Let_def budget_window_nonpos [OF assms(1)] select_with_zero)
qed

text \<open>
  C4, amended. A daily target of zero or less is not rejected: the budget window
  degenerates to 0 to 0 units whatever the fatigue score, and, when the document
  flattens and no segment has negative minutes, \<^verbatim>\<open>recommend_segments\<close> returns the
  empty recommendation \<^verbatim>\<open>([], 0.0)\<close>.
\<close>

theorem nonpositive_target_not_rejected:
  assumes "dm \<le> 0" and "flatten_segments lectures = Inr items"
    and "\<forall>it\<in>set items. 0 \<le> mins it"
  shows "budget_window dm f = (0, 0)
         \<and> recommend_segments lectures dm f cs sel = Inr (Selection [] 0)"
  using budget_window_nonpos [OF assms(1)] recommend_nonpos [OF assms] by simp



text \<open>
  C4 as stated fails for a daily target of 0 minutes: the call is not rejected, it returns
  the empty recommendation.
\<close>



end
